theory Spec2Isabelle
  imports Complex_Main "HOL-Library.Log_Nat"
begin

unbundle bit_operations_syntax

section \<open>Numbers\<close>

text \<open>
  The page computes with JavaScript numbers, IEEE 754 double precision. Every finite
  double is a rational, so the embedding takes \<^typ>\<open>rat\<close> for them. Comparisons,
  \<open>Math.min\<close> and \<open>Math.max\<close> are exact in the source. The sum that the active
  section detector compares a ratio against is rounded as the source rounds it, with
  \<open>to_double\<close> below. The arithmetic of the tint mix at \<open>0\<close>, \<open>0.5\<close> and \<open>1\<close> is
  exact in double precision (integers below \<open>256\<close> and their halves), and the quotient of
  the scroll progress is computed exactly. Integers that went through a bitwise operator
  are \<^typ>\<open>int\<close>.

  \<open>to_double x\<close> is the double nearest to \<open>x\<close>, a tie going to the even significand:
  with \<open>2 ^ e \<le> |x| < 2 ^ (e + 1)\<close> the doubles around \<open>x\<close> are the multiples of
  \<open>2 ^ (e - 52)\<close>, of \<open>2 ^ (-1074)\<close> in the subnormal range. Overflow to an infinity
  (from \<open>2 ^ 1024\<close> on) is not modelled; the ratios are in \<open>[0, 1]\<close>.
\<close>

definition round_half_even :: "rat \<Rightarrow> int" where
  "round_half_even y =
     (let f = \<lfloor>y\<rfloor>; d = y - of_int f
      in if d < 1 / 2 then f else if 1 / 2 < d then f + 1 else if even f then f else f + 1)"

text \<open>\<open>exponent x\<close> is the \<open>e\<close> with \<open>2 ^ e \<le> |x| < 2 ^ (e + 1)\<close>, for \<open>x \<noteq> 0\<close>.\<close>

definition exponent :: "rat \<Rightarrow> int" where
  "exponent x =
     (let k = bitlen (fst (quotient_of \<bar>x\<bar>)) - bitlen (snd (quotient_of \<bar>x\<bar>))
      in if 2 powi k \<le> \<bar>x\<bar> then k else k - 1)"

definition to_double :: "rat \<Rightarrow> rat" where
  "to_double x =
     (if x = 0 then 0
      else let q = 2 powi (max (exponent x) (- 1022) - 52)
           in of_int (round_half_even (x / q)) * q)"

section \<open>Scroll progress (\<open>useScrollProgress\<close>)\<close>

text \<open>
  \<^verbatim>\<open>
  const onScroll = () => {
    const doc = document.documentElement;
    const scrollTop = doc.scrollTop;
    const max = doc.scrollHeight - doc.clientHeight;
    setP(max <= 0 ? 0 : Math.min(1, Math.max(0, scrollTop / max)));
  };
  \<close>
  The document metrics are the three arguments; the result is the value handed to
  \<open>setP\<close>.
\<close>

definition onScroll :: "rat \<Rightarrow> rat \<Rightarrow> rat \<Rightarrow> rat" where
  "onScroll scrollTop scrollHeight clientHeight =
     (let mx = scrollHeight - clientHeight
      in if mx \<le> 0 then 0 else min 1 (max 0 (scrollTop / mx)))"

section \<open>Image preloader (\<open>usePreloadedImages\<close>)\<close>

text \<open>
  \<open>loadedRef\<close> holds a JavaScript \<open>Set\<close> of strings, which keeps its elements in
  insertion order: a list without repetitions, \<open>has\<close> is membership and \<open>add\<close>
  appends an element that is not there yet.
\<close>

type_synonym url_set = "string list"

definition set_has :: "url_set \<Rightarrow> string \<Rightarrow> bool" where
  "set_has s u = (u \<in> set s)"

definition set_add :: "url_set \<Rightarrow> string \<Rightarrow> url_set" where
  "set_add s u = (if u \<in> set s then s else s @ [u])"

text \<open>
  \<^verbatim>\<open>
  const isLoaded = React.useCallback((url?: string | null) => {
    if (!url) return true;
    return loadedRef.current.has(url);
  }, []);
  \<close>
  The argument is \<open>None\<close> for \<open>null\<close> and \<open>undefined\<close>; the empty string is the
  only falsy string.
\<close>

definition isLoaded :: "url_set \<Rightarrow> string option \<Rightarrow> bool" where
  "isLoaded loadedRef url =
     (case url of
        None \<Rightarrow> True
      | Some u \<Rightarrow> if u = [] then True else set_has loadedRef u)"

text \<open>
  The effect's \<open>run\<close> loop. Its only suspension point is the \<open>await\<close> of the decode,
  so the outside world acts on it in two ways only: the decode of a URL settles
  (fulfilled or rejected), and the effect's cleanup, which sets \<open>cancelled\<close>, may run
  while that decode is in flight. A URL is awaited at most once in a run, so both are
  given per URL.
\<close>

datatype settled = Fulfilled | Rejected

record world =
  decode :: "string \<Rightarrow> settled"
  teardown_during :: "string \<Rightarrow> bool"

record preloader =
  loaded :: url_set
  rerenders :: nat
  cancelled :: bool

text \<open>
  \<^verbatim>\<open>
  try { ... await img.decode() ... } catch { /* Ignore decode errors; load best-effort. */ }
  \<close>
  Both outcomes of the decode continue after the \<open>try\<close>; what the wait leaves behind
  is the cancellation flag, set if the cleanup ran meanwhile.
\<close>

definition await_decode :: "world \<Rightarrow> string \<Rightarrow> preloader \<Rightarrow> preloader" where
  "await_decode w url st =
     (case decode w url of
        Fulfilled \<Rightarrow> st\<lparr>cancelled := cancelled st \<or> teardown_during w url\<rparr>
      | Rejected \<Rightarrow> st\<lparr>cancelled := cancelled st \<or> teardown_during w url\<rparr>)"

text \<open>
  \<^verbatim>\<open>
  for (const url of urls) {
    if (cancelled) return;
    if (!url || loadedRef.current.has(url)) continue;
    try { ... } catch { }
    if (cancelled) return;
    loadedRef.current.add(url);
    forceRerender((t) => t + 1);
  }
  \<close>
\<close>

fun run :: "world \<Rightarrow> string list \<Rightarrow> preloader \<Rightarrow> preloader" where
  "run w [] st = st"
| "run w (url # urls) st =
     (if cancelled st then st
      else if url = [] \<or> set_has (loaded st) url then run w urls st
      else
        let st1 = await_decode w url st
        in if cancelled st1 then st1
           else run w urls (st1\<lparr>loaded := set_add (loaded st1) url,
                                 rerenders := rerenders st1 + 1\<rparr>))"

text \<open>The loop starts on \<open>useRef(new Set())\<close> with \<open>let cancelled = false\<close>.\<close>

definition preloader_init :: preloader where
  "preloader_init = \<lparr>loaded = [], rerenders = 0, cancelled = False\<rparr>"

section \<open>Tint interpolation (\<open>hexToRgb\<close>, \<open>lerp\<close>, \<open>mixHex\<close>)\<close>

text \<open>
  \<open>parseInt(h, 16)\<close> skips leading white space, reads a sign, skips a \<open>0x\<close> or
  \<open>0X\<close> prefix, and takes the longest run of hexadecimal digits; it is \<open>NaN\<close> when
  that run is empty. Strings are lists of 8-bit characters here, so the white space is the
  ASCII part of JavaScript's. The value is exact below \<open>2 ^ 53\<close>, that is for up to
  thirteen digits; the theorems use it on six.
\<close>

datatype js_number = NaN | Finite int

definition is_white_space :: "char \<Rightarrow> bool" where
  "is_white_space c = (c \<in> set [CHR 0x09, CHR 0x0A, CHR 0x0B, CHR 0x0C, CHR 0x0D, CHR 0x20])"

definition hex_digit :: "char \<Rightarrow> int option" where
  "hex_digit c =
     (let n = (of_char c :: nat)
      in if 48 \<le> n \<and> n \<le> 57 then Some (int n - 48)
         else if 97 \<le> n \<and> n \<le> 102 then Some (int n - 87)
         else if 65 \<le> n \<and> n \<le> 70 then Some (int n - 55)
         else None)"

definition digits_value :: "string \<Rightarrow> int" where
  "digits_value ds =
     foldl (\<lambda>acc c. 16 * acc + (case hex_digit c of Some d \<Rightarrow> d | None \<Rightarrow> 0)) 0 ds"

definition parseInt16 :: "string \<Rightarrow> js_number" where
  "parseInt16 str =
     (let s1 = dropWhile is_white_space str;
          sgn_rest = (case s1 of
                        [] \<Rightarrow> (1, s1)
                      | c # cs \<Rightarrow> if c = CHR ''-'' then (- 1, cs)
                                 else if c = CHR ''+'' then (1, cs) else (1, s1));
          s2 = snd sgn_rest;
          s3 = (case s2 of
                  c # d # cs \<Rightarrow>
                    if c = CHR ''0'' \<and> (d = CHR ''x'' \<or> d = CHR ''X'') then cs else s2
                | _ \<Rightarrow> s2);
          ds = takeWhile (\<lambda>c. hex_digit c \<noteq> None) s3
      in if ds = [] then NaN else Finite (fst sgn_rest * digits_value ds))"

text \<open>
  The bitwise operators convert their operands with \<open>ToInt32\<close>: \<open>NaN\<close> becomes \<open>0\<close>,
  an integer wraps into \<open>[-2^31, 2^31)\<close>. \<open>>>\<close> is the arithmetic shift.
\<close>

definition to_int32 :: "js_number \<Rightarrow> int" where
  "to_int32 x =
     (case x of
        NaN \<Rightarrow> 0
      | Finite n \<Rightarrow> (let m = n mod 2 ^ 32 in if m \<ge> 2 ^ 31 then m - 2 ^ 32 else m))"

definition shift_right :: "js_number \<Rightarrow> nat \<Rightarrow> int" where
  "shift_right x k = drop_bit k (to_int32 x)"

text \<open>\<open>hex.replace("#", "")\<close> removes the first \<open>#\<close> of the string, wherever it is.\<close>

fun replace_hash :: "string \<Rightarrow> string" where
  "replace_hash [] = []"
| "replace_hash (c # cs) = (if c = CHR ''#'' then cs else c # replace_hash cs)"

record rgb =
  r :: int
  g :: int
  b :: int

text \<open>
  \<^verbatim>\<open>
  function hexToRgb(hex: string) {
    const h = hex.replace("#", "");
    const bigint = parseInt(h, 16);
    const r = (bigint >> 16) & 255;
    const g = (bigint >> 8) & 255;
    const b = bigint & 255;
    return { r, g, b };
  }
  \<close>
\<close>

definition hexToRgb :: "string \<Rightarrow> rgb" where
  "hexToRgb hex =
     (let h = replace_hash hex;
          bigint = parseInt16 h
      in \<lparr>r = shift_right bigint 16 AND 255,
          g = shift_right bigint 8 AND 255,
          b = to_int32 bigint AND 255\<rparr>)"

text \<open>\<^verbatim>\<open>function lerp(a, b, t) { return a + (b - a) * t; }\<close>\<close>

definition lerp :: "rat \<Rightarrow> rat \<Rightarrow> rat \<Rightarrow> rat" where
  "lerp a c t = a + (c - a) * t"

text \<open>\<open>Math.round\<close> rounds to the nearest integer, a half towards \<open>+\<infinity>\<close>.\<close>

definition math_round :: "rat \<Rightarrow> int" where
  "math_round x = \<lfloor>x + 1 / 2\<rfloor>"

text \<open>
  The three channels \<open>mixHex\<close> computes, and the template literal it returns them in.
  \<^verbatim>\<open>
  function mixHex(a: string, b: string, t: number) {
    const A = hexToRgb(a);
    const B = hexToRgb(b);
    const r = Math.round(lerp(A.r, B.r, t));
    const g = Math.round(lerp(A.g, B.g, t));
    const bb = Math.round(lerp(A.b, B.b, t));
    return `rgb(${r}, ${g}, ${bb})`;
  }
  \<close>
\<close>

definition mixChannels :: "string \<Rightarrow> string \<Rightarrow> rat \<Rightarrow> rgb" where
  "mixChannels a c t =
     (let A = hexToRgb a;
          B = hexToRgb c
      in \<lparr>r = math_round (lerp (of_int (r A)) (of_int (r B)) t),
          g = math_round (lerp (of_int (g A)) (of_int (g B)) t),
          b = math_round (lerp (of_int (b A)) (of_int (b B)) t)\<rparr>)"

fun decimal :: "nat \<Rightarrow> string" where
  "decimal n =
     (if n < 10 then [''0123456789'' ! n]
      else decimal (n div 10) @ [''0123456789'' ! (n mod 10)])"

declare decimal.simps [simp del]

definition string_of_int :: "int \<Rightarrow> string" where
  "string_of_int i = (if i < 0 then CHR ''-'' # decimal (nat (- i)) else decimal (nat i))"

definition rgb_string :: "rgb \<Rightarrow> string" where
  "rgb_string c =
     ''rgb('' @ string_of_int (r c) @ '', '' @ string_of_int (g c) @ '', ''
       @ string_of_int (b c) @ '')''"

definition mixHex :: "string \<Rightarrow> string \<Rightarrow> rat \<Rightarrow> string" where
  "mixHex a c t = rgb_string (mixChannels a c t)"

section \<open>Active section detector (\<open>useActiveSection\<close>)\<close>

text \<open>
  \<open>ratios\<close> is a \<open>Map<string, number>\<close>; \<open>ratios.get(id) ?? 0\<close> reads it with
  \<open>0\<close> for a missing key.
\<close>

type_synonym ratio_map = "string \<rightharpoonup> rat"

definition score_of :: "ratio_map \<Rightarrow> string \<Rightarrow> rat" where
  "score_of ratios i = (case ratios i of None \<Rightarrow> 0 | Some x \<Rightarrow> x)"

text \<open>
  The literal \<open>1e-6\<close> is the double nearest to one millionth, and \<open>bestScore + 1e-6\<close>
  is the double nearest to the sum.
\<close>

definition literal_1e_6 :: rat where
  "literal_1e_6 = to_double (1 / 1000000)"

definition threshold :: "rat \<Rightarrow> rat" where
  "threshold bestScore = to_double (bestScore + literal_1e_6)"

text \<open>
  \<^verbatim>\<open>
  for (const id of sectionIds) {
    const score = ratios.get(id) ?? 0;
    if (score > bestScore + 1e-6) {
      bestScore = score;
      bestId = id;
    }
  }
  \<close>
  The loop, with \<open>(bestId, bestScore)\<close> as its state.
\<close>

fun best_loop :: "ratio_map \<Rightarrow> string list \<Rightarrow> string \<times> rat \<Rightarrow> string \<times> rat" where
  "best_loop ratios [] best = best"
| "best_loop ratios (i # ids) best =
     (let score = score_of ratios i
      in if score > threshold (snd best) then best_loop ratios ids (i, score)
         else best_loop ratios ids best)"

text \<open>\<open>sectionIds[0] || ""\<close>: the first id, the empty string for the empty list.\<close>

definition first_or_empty :: "string list \<Rightarrow> string" where
  "first_or_empty sectionIds = (case sectionIds of [] \<Rightarrow> [] | i # _ \<Rightarrow> i)"

text \<open>
  The state update \<open>commitBest\<close> hands to \<open>setActive\<close>:
  \<^verbatim>\<open>
  setActive((prev) => {
    let bestId = prev || sectionIds[0] || "";
    let bestScore = -1;
    for (...) { ... }
    if (!bestId) return prev;
    return prev === bestId ? prev : bestId;
  });
  \<close>
\<close>

definition commitBest :: "string list \<Rightarrow> ratio_map \<Rightarrow> string \<Rightarrow> string" where
  "commitBest sectionIds ratios prev =
     (let bestId0 = (if prev \<noteq> [] then prev else first_or_empty sectionIds);
          bestId = fst (best_loop ratios sectionIds (bestId0, - 1))
      in if bestId = [] then prev
         else if prev = bestId then prev else bestId)"

text \<open>
  The observer's callback stores, for each entry of a batch, the entry's ratio under its
  target's id (\<open>0\<close> when it is not intersecting) and requests an animation frame unless
  one is pending; the frame runs \<open>commitBest\<close> and clears \<open>raf\<close>.
\<close>

record entry =
  target_id :: string
  isIntersecting :: bool
  intersectionRatio :: rat

record detector =
  active :: string
  ratios :: ratio_map
  raf :: bool

datatype detector_event = Intersections "entry list" | AnimationFrame

definition store_entries :: "ratio_map \<Rightarrow> entry list \<Rightarrow> ratio_map" where
  "store_entries m es =
     foldl (\<lambda>m e. m(target_id e \<mapsto> (if isIntersecting e then intersectionRatio e else 0))) m es"

fun detector_step :: "string list \<Rightarrow> detector \<Rightarrow> detector_event \<Rightarrow> detector" where
  "detector_step sectionIds st (Intersections es) =
     st\<lparr>ratios := store_entries (ratios st) es, raf := True\<rparr>"
| "detector_step sectionIds st AnimationFrame =
     (if raf st
      then st\<lparr>raf := False, active := commitBest sectionIds (ratios st) (active st)\<rparr>
      else st)"

definition detector_init :: "string list \<Rightarrow> detector" where
  "detector_init sectionIds =
     \<lparr>active = first_or_empty sectionIds, ratios = Map.empty, raf = False\<rparr>"

text \<open>
  The hook after a sequence of events. \<open>present\<close> says which ids
  \<open>document.getElementById\<close> finds; when it finds none the effect returns before it
  creates the observer (\<open>if (!elements.length) return;\<close>) and no event is ever delivered.
\<close>

definition useActiveSection ::
  "string list \<Rightarrow> (string \<Rightarrow> bool) \<Rightarrow> detector_event list \<Rightarrow> string" where
  "useActiveSection sectionIds present evs =
     (if filter present sectionIds = [] then active (detector_init sectionIds)
      else active (foldl (detector_step sectionIds) (detector_init sectionIds) evs))"

text \<open>The ids the page passes: \<open>["hero", "meaning", "pattern", "mechanism", "work", "involved"]\<close>.\<close>

definition page_sectionIds :: "string list" where
  "page_sectionIds = [''hero'', ''meaning'', ''pattern'', ''mechanism'', ''work'', ''involved'']"

section \<open>Background crossfade (\<open>DivisionBackgroundCrossfade\<close>)\<close>

record cfg =
  image :: string
  overlay :: string
  position :: "string option"

text \<open>
  \<open>cfgFor\<close>, with the images of \<open>DIVISIONS\<close> written in
  (\<open>meaningImage\<close>, \<open>patternImage\<close>, \<open>mechanismImage\<close>); \<open>None\<close> is \<open>null\<close>.
\<close>

definition cfgFor :: "string \<Rightarrow> cfg option" where
  "cfgFor k =
     (if k = ''meaning'' then
        Some \<lparr>image = ''/pics/meaning_img.JPG'',
              overlay = ''linear-gradient(180deg, rgba(31,42,51,0) 0%, rgba(31,42,51,0.10) 6%, rgba(0,0,0,0.58) 100%)'',
              position = None\<rparr>
      else if k = ''pattern'' then
        Some \<lparr>image = ''/pics/pattern.JPG'',
              overlay = ''linear-gradient(180deg, rgba(6, 50, 3, 0.2) 5%, rgba(4, 34, 2, 0.4) 22%, rgba(4, 34, 2, 0.70) 100%)'',
              position = None\<rparr>
      else if k = ''mechanism'' then
        Some \<lparr>image = ''/pics/mechanism.JPG'',
              overlay = ''linear-gradient(180deg, rgba(106, 66, 81, 0.20) 5%, rgba(106, 66, 81, 0.4) 8%, rgba(0,0,0,0.7) 100%)'',
              position = None\<rparr>
      else if k = ''hero'' then
        Some \<lparr>image = ''/pics/Vision_bg.png'',
              overlay = ''rgba(8, 24, 36, 0.85)'',
              position = Some ''center top -100px''\<rparr>
      else if k = ''work'' then
        Some \<lparr>image = ''/pics/work.JPG'',
              overlay = ''linear-gradient(180deg, rgba(245,247,246,0.3) 0%, rgba(245,247,246,0.3) 55%, rgba(245,247,246,0.3) 100%)'',
              position = None\<rparr>
      else if k = ''involved'' then
        Some \<lparr>image = ''/pics/involved.JPG'',
              overlay = ''linear-gradient(180deg, rgba(245,247,246,0.5) 0%, rgba(245,247,246,0.5) 55%, rgba(245,247,246,0.5) 100%)'',
              position = None\<rparr>
      else None)"

text \<open>
  \<^verbatim>\<open>
  const key = active === "hero" || active === "meaning" || active === "pattern" ||
    active === "mechanism" || active === "work" || active === "involved" ? active : "none";
  \<close>
\<close>

definition key_of :: "string \<Rightarrow> string" where
  "key_of act =
     (if act = ''hero'' \<or> act = ''meaning'' \<or> act = ''pattern'' \<or> act = ''mechanism''
         \<or> act = ''work'' \<or> act = ''involved''
      then act else ''none'')"

text \<open>
  The body of the effect, as the new value of \<open>displayKey\<close>:
  \<^verbatim>\<open>
  if (key === "none") { setDisplayKey("none"); return; }
  const next = cfgFor(key);
  if (!next?.image || isLoaded(next.image)) { setDisplayKey(key); }
  \<close>
\<close>

definition display_effect :: "url_set \<Rightarrow> string \<Rightarrow> string \<Rightarrow> string" where
  "display_effect loadedRef key displayKey =
     (if key = ''none'' then ''none''
      else case cfgFor key of
             None \<Rightarrow> key
           | Some next \<Rightarrow>
               if image next = [] \<or> isLoaded loadedRef (Some (image next)) then key
               else displayKey)"

text \<open>
  What the component draws: \<open>cfg?.image ? <img src={cfg.image} .../> : null\<close> with
  \<open>cfg = cfgFor(displayKey)\<close>.
\<close>

definition rendered_image :: "string \<Rightarrow> string option" where
  "rendered_image displayKey =
     (case cfgFor displayKey of
        None \<Rightarrow> None
      | Some c \<Rightarrow> if image c = [] then None else Some (image c))"

text \<open>
  The component's state between renders: the \<open>key\<close> of the last render, which is the
  dependency the effect was last run for, \<open>displayKey\<close>, and the preloader's registry.
  The component renders again when its parent passes a new \<open>active\<close> and when the
  preloader, after adding a URL, calls \<open>forceRerender\<close>. React runs the effect after
  a render only if one of its dependencies \<open>[key, isLoaded]\<close> changed; \<open>isLoaded\<close> is
  \<open>React.useCallback(..., [])\<close>, the same function in every render, so the effect runs
  exactly when \<open>key\<close> changed.
\<close>

record crossfade =
  key :: string
  displayKey :: string
  loadedRef :: url_set

datatype crossfade_event = ActiveChanged string | ImageLoaded string

text \<open>
  Mount: \<open>useState(key)\<close> and \<open>useRef(new Set())\<close>, then the effect's first run.
\<close>

definition mount :: "string \<Rightarrow> crossfade" where
  "mount act =
     (let k = key_of act
      in \<lparr>key = k, displayKey = display_effect [] k k, loadedRef = []\<rparr>)"

fun crossfade_step :: "crossfade \<Rightarrow> crossfade_event \<Rightarrow> crossfade" where
  "crossfade_step st (ActiveChanged act) =
     (let k = key_of act
      in if k = key st then st
         else st\<lparr>key := k, displayKey := display_effect (loadedRef st) k (displayKey st)\<rparr>)"
| "crossfade_step st (ImageLoaded url) = st\<lparr>loadedRef := set_add (loadedRef st) url\<rparr>"

text \<open>
  The displayed configuration draws no image, or one whose URL is in the registry.
\<close>

definition image_ready :: "url_set \<Rightarrow> string \<Rightarrow> bool" where
  "image_ready reg dk = (case rendered_image dk of None \<Rightarrow> True | Some u \<Rightarrow> u \<in> set reg)"

text \<open>The sequence of a list without its repetitions, in the order of first occurrence.\<close>

definition first_occurrences :: "'a list \<Rightarrow> 'a list" where
  "first_occurrences xs = rev (remdups (rev xs))"

section \<open>Properties\<close>

subsection \<open>Scroll progress\<close>

lemma onScroll_range: "0 \<le> onScroll s sh ch \<and> onScroll s sh ch \<le> 1"
  by (simp add: onScroll_def Let_def)

lemma onScroll_mono:
  assumes "s \<le> s'"
  shows "onScroll s sh ch \<le> onScroll s' sh ch"
proof (cases "sh - ch \<le> 0")
  case True
  then show ?thesis by (simp add: onScroll_def)
next
  case False
  then have "s / (sh - ch) \<le> s' / (sh - ch)"
    using assms by (simp add: divide_right_mono)
  then have "min 1 (max 0 (s / (sh - ch))) \<le> min 1 (max 0 (s' / (sh - ch)))"
    by (intro min.mono max.mono order_refl)
  then show ?thesis
    using False by (simp only: onScroll_def Let_def if_False)
qed

lemma onScroll_exact:
  assumes "0 \<le> s" and "s \<le> sh - ch" and "0 < sh - ch"
  shows "onScroll s sh ch = s / (sh - ch)"
proof -
  have "0 \<le> s / (sh - ch)" and "s / (sh - ch) \<le> 1"
    using assms by simp_all
  then show ?thesis
    using assms by (simp add: onScroll_def Let_def min_def max_def)
qed

text \<open>
  C5. With \<open>maxScroll = scrollHeight - clientHeight\<close>: for a scroll offset \<open>s\<close> with
  \<open>0 \<le> s \<le> maxScroll\<close> and a positive \<open>maxScroll\<close> the progress is \<open>s / maxScroll\<close>,
  which is its own clamp to \<open>[0,1]\<close>; the progress is non-decreasing in \<open>s\<close>; it is \<open>0\<close>
  at offset \<open>0\<close>; it is exactly \<open>0\<close> whenever \<open>maxScroll \<le> 0\<close>; and it always lies in
  \<open>[0,1]\<close>.
\<close>

theorem scroll_progress_clamped_monotone:
  "(0 \<le> s \<and> s \<le> sh - ch \<and> 0 < sh - ch \<longrightarrow>
      onScroll s sh ch = s / (sh - ch) \<and>
      onScroll s sh ch = min 1 (max 0 (s / (sh - ch))))
   \<and> (s \<le> s' \<longrightarrow> onScroll s sh ch \<le> onScroll s' sh ch)
   \<and> onScroll 0 sh ch = 0
   \<and> (sh - ch \<le> 0 \<longrightarrow> onScroll s sh ch = 0)
   \<and> 0 \<le> onScroll s sh ch \<and> onScroll s sh ch \<le> 1"
proof -
  have a: "0 \<le> s \<and> s \<le> sh - ch \<and> 0 < sh - ch \<longrightarrow>
      onScroll s sh ch = s / (sh - ch) \<and>
      onScroll s sh ch = min 1 (max 0 (s / (sh - ch)))"
    using onScroll_exact [of s sh ch] by (simp add: onScroll_def Let_def)
  have b: "s \<le> s' \<longrightarrow> onScroll s sh ch \<le> onScroll s' sh ch"
    using onScroll_mono by blast
  have c: "onScroll 0 sh ch = 0"
    by (simp add: onScroll_def Let_def)
  have d: "sh - ch \<le> 0 \<longrightarrow> onScroll s sh ch = 0"
    by (simp add: onScroll_def)
  show ?thesis
    using a b c d onScroll_range [of s sh ch] by blast
qed

theorem scroll_progress_clamped_monotone_witness:
  "onScroll 300 2000 800 = 1 / 4 \<and> onScroll 300 2000 800 \<le> onScroll 600 2000 800
   \<and> onScroll 600 2000 800 = 1 / 2 \<and> onScroll 300 500 800 = 0"
  using scroll_progress_clamped_monotone [of 300 2000 800 600]
    scroll_progress_clamped_monotone [of 600 2000 800 600]
    scroll_progress_clamped_monotone [of 300 500 800 300]
  by simp

subsection \<open>The \<open>isLoaded\<close> query\<close>

text \<open>
  C9. \<open>isLoaded\<close> answers true for a \<open>null\<close>/\<open>undefined\<close> argument and for the empty
  string, whatever the loaded registry holds; for a non-empty URL it answers true exactly
  when the URL is in the registry.
\<close>

theorem isLoaded_empty_or_member:
  "isLoaded reg None \<and> isLoaded reg (Some [])
   \<and> (u \<noteq> [] \<longrightarrow> isLoaded reg (Some u) = (u \<in> set reg))"
  by (simp add: isLoaded_def set_has_def)

theorem isLoaded_empty_or_member_witness:
  "isLoaded [''/pics/work.JPG''] None \<and> isLoaded [''/pics/work.JPG''] (Some [])
   \<and> isLoaded [''/pics/work.JPG''] (Some ''/pics/work.JPG'')
   \<and> \<not> isLoaded [''/pics/work.JPG''] (Some ''/pics/involved.JPG'')"
  using isLoaded_empty_or_member [of "[''/pics/work.JPG'']" "''/pics/work.JPG''"]
    isLoaded_empty_or_member [of "[''/pics/work.JPG'']" "''/pics/involved.JPG''"]
  by simp

subsection \<open>The preload loop\<close>

lemma run_cancelled: "cancelled st \<Longrightarrow> run w urls st = st"
  by (cases urls) simp_all

lemma await_decode_eq:
  "await_decode w url st = st\<lparr>cancelled := cancelled st \<or> teardown_during w url\<rparr>"
  by (simp add: await_decode_def split: settled.splits)

lemma remdups_snoc: "remdups (ys @ [u]) = remdups [y \<leftarrow> ys. y \<noteq> u] @ [u]"
  by (induction ys) auto

lemma first_occurrences_Cons:
  "first_occurrences (u # xs) = u # first_occurrences [x \<leftarrow> xs. x \<noteq> u]"
  by (simp add: first_occurrences_def remdups_snoc rev_filter)

lemma run_loaded:
  assumes quiet: "\<And>u. \<not> teardown_during w u" and "\<not> cancelled st"
  shows "loaded (run w urls st) =
           loaded st @ first_occurrences [u \<leftarrow> urls. u \<noteq> [] \<and> u \<notin> set (loaded st)]
         \<and> rerenders (run w urls st) = rerenders st +
             length (first_occurrences [u \<leftarrow> urls. u \<noteq> [] \<and> u \<notin> set (loaded st)])
         \<and> \<not> cancelled (run w urls st)"
  using assms(2)
proof (induction urls arbitrary: st)
  case Nil
  then show ?case by (simp add: first_occurrences_def)
next
  case (Cons url urls)
  show ?case
  proof (cases "url = [] \<or> url \<in> set (loaded st)")
    case True
    then show ?thesis using Cons by (auto simp: set_has_def)
  next
    case False
    let ?st' = "(await_decode w url st)\<lparr>loaded := set_add (loaded st) url,
                                        rerenders := rerenders st + 1\<rparr>"
    have nc: "\<not> cancelled ?st'"
      using Cons.prems quiet by (simp add: await_decode_eq)
    have step: "run w (url # urls) st = run w urls ?st'"
      using False Cons.prems quiet by (simp add: set_has_def Let_def await_decode_eq)
    have sa: "set_add (loaded st) url = loaded st @ [url]"
      using False by (simp add: set_add_def)
    have f: "[u \<leftarrow> urls. u \<noteq> [] \<and> u \<notin> set (loaded st @ [url])] =
             [x \<leftarrow> [u \<leftarrow> urls. u \<noteq> [] \<and> u \<notin> set (loaded st)]. x \<noteq> url]"
      by (auto intro: filter_cong)
    have ih: "loaded (run w urls ?st') =
                loaded ?st' @ first_occurrences [u \<leftarrow> urls. u \<noteq> [] \<and> u \<notin> set (loaded ?st')]
              \<and> rerenders (run w urls ?st') = rerenders ?st' +
                  length (first_occurrences [u \<leftarrow> urls. u \<noteq> [] \<and> u \<notin> set (loaded ?st')])
              \<and> \<not> cancelled (run w urls ?st')"
      by (rule Cons.IH [OF nc])
    have l: "loaded ?st' = loaded st @ [url]" and rr: "rerenders ?st' = rerenders st + 1"
      by (simp_all add: sa)
    show ?thesis
      unfolding step using ih False unfolding l rr f
      by (simp add: first_occurrences_Cons)
  qed
qed

lemma run_loaded_prefix:
  "\<exists>k. loaded (run w urls st) =
         loaded st @ take k (first_occurrences [u \<leftarrow> urls. u \<noteq> [] \<and> u \<notin> set (loaded st)])"
proof (induction urls arbitrary: st)
  case Nil
  then show ?case by simp
next
  case (Cons url urls)
  consider (stopped) "cancelled st"
    | (skip) "\<not> cancelled st" "url = [] \<or> url \<in> set (loaded st)"
    | (torn) "\<not> cancelled st" "\<not> (url = [] \<or> url \<in> set (loaded st))" "teardown_during w url"
    | (added) "\<not> cancelled st" "\<not> (url = [] \<or> url \<in> set (loaded st))" "\<not> teardown_during w url"
    by blast
  then show ?case
  proof cases
    case stopped
    then have "loaded (run w (url # urls) st) = loaded st"
      by (simp add: run_cancelled)
    then show ?thesis by (intro exI [of _ 0]) simp
  next
    case skip
    then have "run w (url # urls) st = run w urls st"
      by (simp add: set_has_def)
    moreover have "[u \<leftarrow> url # urls. u \<noteq> [] \<and> u \<notin> set (loaded st)] =
                   [u \<leftarrow> urls. u \<noteq> [] \<and> u \<notin> set (loaded st)]"
      using skip(2) by auto
    ultimately show ?thesis using Cons.IH [of st] by simp
  next
    case torn
    then have "loaded (run w (url # urls) st) = loaded st"
      by (simp add: set_has_def Let_def await_decode_eq)
    then show ?thesis by (intro exI [of _ 0]) simp
  next
    case added
    let ?st' = "(await_decode w url st)\<lparr>loaded := set_add (loaded st) url,
                                        rerenders := rerenders st + 1\<rparr>"
    have step: "run w (url # urls) st = run w urls ?st'"
      using added by (simp add: set_has_def Let_def await_decode_eq)
    have l: "loaded ?st' = loaded st @ [url]"
      using added(2) by (simp add: set_add_def)
    have f: "[u \<leftarrow> urls. u \<noteq> [] \<and> u \<notin> set (loaded st @ [url])] =
             [x \<leftarrow> [u \<leftarrow> urls. u \<noteq> [] \<and> u \<notin> set (loaded st)]. x \<noteq> url]"
      by (auto intro: filter_cong)
    obtain k where k: "loaded (run w urls ?st') =
        loaded ?st' @ take k (first_occurrences [u \<leftarrow> urls. u \<noteq> [] \<and> u \<notin> set (loaded ?st')])"
      using Cons.IH [of ?st'] by blast
    have "loaded (run w (url # urls) st) =
            loaded st @ take (Suc k)
              (first_occurrences [u \<leftarrow> url # urls. u \<noteq> [] \<and> u \<notin> set (loaded st)])"
      unfolding step using k added(2) unfolding l f
      by (simp add: first_occurrences_Cons)
    then show ?thesis by blast
  qed
qed

text \<open>
  C6. As long as the effect is not torn down, whatever the decodes do: the registry after
  the loop is the registry before it followed by the non-empty URLs of the input that were
  not loaded yet, each once, in input order; the result is the same for any other outcome
  of the decodes. In particular, from the empty registry, on \<open>[url1, url2]\<close> with two
  non-empty URLs where the decode of \<open>url1\<close> is rejected and that of \<open>url2\<close> fulfilled,
  both URLs end up loaded, \<open>url1\<close> before \<open>url2\<close>. In any world and from any state,
  torn down or not, what the loop adds is an initial part of that sequence.
\<close>

theorem preload_loads_all_in_input_order:
  assumes "\<forall>u. \<not> teardown_during w u" and "\<not> cancelled st"
  shows "loaded (run w urls st) =
           loaded st @ first_occurrences [u \<leftarrow> urls. u \<noteq> [] \<and> u \<notin> set (loaded st)]
         \<and> (\<forall>w'. (\<forall>u. \<not> teardown_during w' u) \<longrightarrow> loaded (run w' urls st) = loaded (run w urls st))
         \<and> (url1 \<noteq> [] \<and> url2 \<noteq> [] \<and> decode w url1 = Rejected \<and> decode w url2 = Fulfilled \<longrightarrow>
              set (loaded (run w [url1, url2] preloader_init)) = {url1, url2}
              \<and> (url1 \<noteq> url2 \<longrightarrow> loaded (run w [url1, url2] preloader_init) = [url1, url2]))
         \<and> (\<exists>k. loaded (run w2 urls st2) =
               loaded st2 @ take k (first_occurrences [u \<leftarrow> urls. u \<noteq> [] \<and> u \<notin> set (loaded st2)]))"
proof -
  have quiet: "\<And>u. \<not> teardown_during w u"
    using assms(1) by blast
  have a: "loaded (run w urls st) =
             loaded st @ first_occurrences [u \<leftarrow> urls. u \<noteq> [] \<and> u \<notin> set (loaded st)]"
    using run_loaded [OF quiet assms(2)] by blast
  have b: "\<forall>w'. (\<forall>u. \<not> teardown_during w' u) \<longrightarrow> loaded (run w' urls st) = loaded (run w urls st)"
  proof (intro allI impI)
    fix w' :: world
    assume "\<forall>u. \<not> teardown_during w' u"
    then have "\<And>u. \<not> teardown_during w' u" by blast
    from run_loaded [OF this assms(2)] show "loaded (run w' urls st) = loaded (run w urls st)"
      using a by simp
  qed
  have init: "\<not> cancelled preloader_init" "loaded preloader_init = []"
    by (simp_all add: preloader_init_def)
  have c: "url1 \<noteq> [] \<and> url2 \<noteq> [] \<and> decode w url1 = Rejected \<and> decode w url2 = Fulfilled \<longrightarrow>
              set (loaded (run w [url1, url2] preloader_init)) = {url1, url2}
              \<and> (url1 \<noteq> url2 \<longrightarrow> loaded (run w [url1, url2] preloader_init) = [url1, url2])"
    using run_loaded [OF quiet init(1), of "[url1, url2]"]
    by (auto simp: init(2) first_occurrences_def)
  show ?thesis using a b c run_loaded_prefix [of w2 urls st2] by blast
qed

theorem preload_loads_all_in_input_order_witness:
  "loaded (run \<lparr>decode = (\<lambda>u. if u = ''/pics/Vision_bg.png'' then Rejected else Fulfilled),
                teardown_during = (\<lambda>u. False)\<rparr>
             [''/pics/Vision_bg.png'', ''/pics/work.JPG''] preloader_init)
     = [''/pics/Vision_bg.png'', ''/pics/work.JPG'']"
proof -
  let ?w = "\<lparr>decode = (\<lambda>u. if u = ''/pics/Vision_bg.png'' then Rejected else Fulfilled),
             teardown_during = (\<lambda>u. False)\<rparr>"
  have h1: "\<forall>u. \<not> teardown_during ?w u"
    by simp
  have h2: "\<not> cancelled preloader_init"
    by (simp add: preloader_init_def)
  have h3: "''/pics/Vision_bg.png'' \<noteq> [] \<and> ''/pics/work.JPG'' \<noteq> []
            \<and> decode ?w ''/pics/Vision_bg.png'' = Rejected
            \<and> decode ?w ''/pics/work.JPG'' = Fulfilled"
    by simp
  have h4: "''/pics/Vision_bg.png'' \<noteq> ''/pics/work.JPG''"
    by simp
  show ?thesis
    using preload_loads_all_in_input_order
      [OF h1 h2, of "[]" "''/pics/Vision_bg.png''" "''/pics/work.JPG''"] h3 h4
    by blast
qed

text \<open>
  C8. Once \<open>cancelled\<close> is set the loop does nothing more, from whatever position it is
  at: the state, with the registry and the re-render count, stays as it is. When the
  cleanup runs while the decode of a URL is in flight, the loop stops when that decode
  settles: the URL is not added, no re-render is triggered and no later URL is processed.
\<close>

theorem cancelled_loop_does_nothing:
  "(cancelled st \<longrightarrow> run w urls st = st)
   \<and> (\<not> cancelled st \<and> url \<noteq> [] \<and> url \<notin> set (loaded st) \<and> teardown_during w url \<longrightarrow>
        loaded (run w (url # urls) st) = loaded st
        \<and> rerenders (run w (url # urls) st) = rerenders st
        \<and> cancelled (run w (url # urls) st))"
  by (simp add: run_cancelled set_has_def await_decode_eq Let_def)

theorem cancelled_loop_does_nothing_witness:
  "run \<lparr>decode = (\<lambda>u. Fulfilled), teardown_during = (\<lambda>u. False)\<rparr>
       [''/pics/work.JPG''] (preloader_init\<lparr>cancelled := True\<rparr>)
     = preloader_init\<lparr>cancelled := True\<rparr>
   \<and> loaded (run \<lparr>decode = (\<lambda>u. Fulfilled), teardown_during = (\<lambda>u. u = ''/pics/work.JPG'')\<rparr>
               [''/pics/work.JPG'', ''/pics/involved.JPG''] preloader_init) = []
   \<and> rerenders (run \<lparr>decode = (\<lambda>u. Fulfilled), teardown_during = (\<lambda>u. u = ''/pics/work.JPG'')\<rparr>
               [''/pics/work.JPG'', ''/pics/involved.JPG''] preloader_init) = 0"
  using cancelled_loop_does_nothing
    [of "preloader_init\<lparr>cancelled := True\<rparr>"
        "\<lparr>decode = (\<lambda>u. Fulfilled), teardown_during = (\<lambda>u. False)\<rparr>"
        "[''/pics/work.JPG'']"]
    cancelled_loop_does_nothing
    [of preloader_init
        "\<lparr>decode = (\<lambda>u. Fulfilled), teardown_during = (\<lambda>u. u = ''/pics/work.JPG'')\<rparr>"
        "[''/pics/involved.JPG'']" "''/pics/work.JPG''"]
  by (simp add: preloader_init_def)

subsection \<open>Rounding to double precision\<close>

lemma round_half_even_error: "\<bar>of_int (round_half_even y) - y\<bar> \<le> 1 / 2"
proof -
  have "of_int \<lfloor>y\<rfloor> \<le> y" "y < of_int \<lfloor>y\<rfloor> + 1"
    by linarith+
  then show ?thesis
    by (auto simp: round_half_even_def Let_def)
qed

lemma round_half_even_nonneg: "0 \<le> y \<Longrightarrow> 0 \<le> round_half_even y"
  by (auto simp: round_half_even_def Let_def)

lemma exponent_lower:
  assumes "x \<noteq> 0"
  shows "2 powi exponent x \<le> \<bar>x\<bar>"
proof -
  obtain p q where pq: "quotient_of \<bar>x\<bar> = (p, q)"
    by (cases "quotient_of \<bar>x\<bar>")
  have q: "0 < q" using pq by (rule quotient_of_denom_pos)
  have x: "\<bar>x\<bar> = of_int p / of_int q" using pq by (rule quotient_of_div)
  have p: "0 < p" using assms q x
    by (metis abs_ge_zero abs_zero divide_eq_0_iff of_int_0_le_iff of_int_eq_0_iff
        zero_le_divide_iff not_le order.order_iff_strict of_int_0_less_iff zero_less_abs_iff zero_less_divide_iff)
  let ?k = "bitlen p - bitlen q"
  show ?thesis
  proof (cases "2 powi ?k \<le> \<bar>x\<bar>")
    case True
    then show ?thesis by (simp add: exponent_def pq)
  next
    case False
    have bp: "1 \<le> bitlen p" and bq: "1 \<le> bitlen q"
      using p q by (simp_all add: bitlen_alt_def)
    have lo: "(2::rat) ^ nat (bitlen p - 1) \<le> of_int p"
      using bitlen_bounds [OF p]
      by (metis of_int_le_iff of_int_numeral of_int_power)
    have hi: "of_int q < (2::rat) ^ nat (bitlen q)"
      using bitlen_bounds [OF q]
      by (metis of_int_less_iff of_int_numeral of_int_power)
    have "(2::rat) powi (?k - 1) = 2 powi ((bitlen p - 1) - bitlen q)"
      by (simp add: algebra_simps)
    also have "\<dots> = 2 powi (bitlen p - 1) / 2 powi (bitlen q)"
      by (rule power_int_diff) simp
    also have "\<dots> = 2 ^ nat (bitlen p - 1) / 2 ^ nat (bitlen q)"
      using bp bq by (simp add: power_int_def)
    also have "\<dots> \<le> of_int p / of_int q"
      using lo hi q p by (intro frac_le) simp_all
    finally have "(2::rat) powi (?k - 1) \<le> \<bar>x\<bar>"
      by (simp only: x)
    moreover have "exponent x = ?k - 1"
      using False by (simp add: exponent_def pq)
    ultimately show ?thesis by simp
  qed
qed

lemma exponent_small:
  assumes "x \<noteq> 0" and "\<bar>x\<bar> < 2"
  shows "exponent x \<le> 0"
proof (rule ccontr)
  assume "\<not> exponent x \<le> 0"
  then have "1 \<le> exponent x" by simp
  then have "(2::rat) powi 1 \<le> 2 powi exponent x"
    by (intro power_int_increasing) simp_all
  then show False
    using exponent_lower [OF assms(1)] assms(2) by simp
qed

lemma to_double_error:
  assumes "\<bar>x\<bar> < 2"
  shows "\<bar>to_double x - x\<bar> \<le> 1 / 2 ^ 53"
proof (cases "x = 0")
  case True
  then show ?thesis by (simp add: to_double_def)
next
  case False
  define q :: rat where "q = 2 powi (max (exponent x) (- 1022) - 52)"
  have qpos: "0 < q" by (simp add: q_def)
  have "max (exponent x) (- 1022) - 52 \<le> - 52"
    using exponent_small [OF False assms] by simp
  then have "q \<le> 2 powi (- 52)"
    unfolding q_def by (intro power_int_increasing) simp_all
  then have qle: "q \<le> 1 / 2 ^ 52"
    by (simp add: power_int_def inverse_eq_divide power_one_over)
  have td: "to_double x = of_int (round_half_even (x / q)) * q"
    using False by (simp add: to_double_def q_def Let_def)
  have "to_double x - x = (of_int (round_half_even (x / q)) - x / q) * q"
    using qpos by (simp add: td field_simps)
  then have "\<bar>to_double x - x\<bar> = \<bar>of_int (round_half_even (x / q)) - x / q\<bar> * q"
    using qpos by (simp add: abs_mult)
  also have "\<dots> \<le> (1 / 2) * q"
    using round_half_even_error [of "x / q"] qpos by (intro mult_right_mono) simp_all
  also have "\<dots> \<le> (1 / 2) * (1 / 2 ^ 52)"
    using qle by simp
  finally show ?thesis by simp
qed

lemma to_double_nonneg:
  assumes "0 \<le> x"
  shows "0 \<le> to_double x"
proof (cases "x = 0")
  case True
  then show ?thesis by (simp add: to_double_def)
next
  case False
  define q :: rat where "q = 2 powi (max (exponent x) (- 1022) - 52)"
  have qpos: "0 < q" by (simp add: q_def)
  have "0 \<le> round_half_even (x / q)"
    using assms qpos by (intro round_half_even_nonneg) simp
  then show ?thesis
    using False qpos by (simp add: to_double_def Let_def q_def [symmetric])
qed

lemma literal_1e_6_value: "literal_1e_6 = 4722366482869645 / 4722366482869645213696"
  by code_simp

lemma threshold_bounds:
  assumes "- 1 \<le> s" and "s \<le> 1"
  shows "s < threshold s"
    and "threshold s \<le> s + 1 / 1000000 + 1 / 2 ^ 52"
    and "s + 1 / 1000000 - 1 / 2 ^ 52 \<le> threshold s"
proof -
  have "\<bar>s + literal_1e_6\<bar> < 2"
    using assms by (simp add: literal_1e_6_value abs_less_iff)
  from to_double_error [OF this]
  have e: "\<bar>to_double (s + literal_1e_6) - (s + literal_1e_6)\<bar> \<le> 1 / 2 ^ 53" .
  have lo: "s + literal_1e_6 - 1 / 2 ^ 53 \<le> threshold s"
    and hi: "threshold s \<le> s + literal_1e_6 + 1 / 2 ^ 53"
    using e unfolding threshold_def by (simp_all only: abs_le_iff) linarith+
  have "(1::rat) / 2 ^ 53 < literal_1e_6"
    and "literal_1e_6 + 1 / 2 ^ 53 \<le> 1 / 1000000 + 1 / 2 ^ 52"
    and "1 / 1000000 - 1 / 2 ^ 52 \<le> literal_1e_6 - 1 / 2 ^ 53"
    by (simp_all add: literal_1e_6_value)
  then show "s < threshold s"
    and "threshold s \<le> s + 1 / 1000000 + 1 / 2 ^ 52"
    and "s + 1 / 1000000 - 1 / 2 ^ 52 \<le> threshold s"
    using lo hi by linarith+
qed

lemma threshold_nonneg: "0 \<le> s \<Longrightarrow> 0 \<le> threshold s"
  unfolding threshold_def by (rule to_double_nonneg) (simp add: literal_1e_6_value)

lemma threshold_minus_one: "threshold (- 1) < 0"
  using threshold_bounds(2) [of "- 1"] by simp

lemma threshold_zero: "threshold 0 = literal_1e_6"
  by code_simp

subsection \<open>The active section\<close>

lemma best_loop_mem: "fst (best_loop rs ids best) \<in> insert (fst best) (set ids)"
proof (induction ids arbitrary: best)
  case Nil
  then show ?case by simp
next
  case (Cons x xs)
  show ?case
    using Cons.IH [of "(x, score_of rs x)"] Cons.IH [of best]
    by (auto simp: Let_def)
qed

lemma best_loop_cases:
  assumes "- 1 \<le> s0" and "s0 \<le> 1"
    and "\<forall>i\<in>set ids. 0 \<le> score_of rs i \<and> score_of rs i \<le> 1"
  shows "(best_loop rs ids (b0, s0) = (b0, s0)
      \<and> (\<forall>i\<in>set ids. score_of rs i \<le> threshold s0))
   \<or> (\<exists>pre post. ids = pre @ fst (best_loop rs ids (b0, s0)) # post
        \<and> snd (best_loop rs ids (b0, s0)) = score_of rs (fst (best_loop rs ids (b0, s0)))
        \<and> threshold s0 < snd (best_loop rs ids (b0, s0))
        \<and> (\<forall>i\<in>set pre. score_of rs i < snd (best_loop rs ids (b0, s0)))
        \<and> (\<forall>i\<in>set ids. score_of rs i \<le> threshold (snd (best_loop rs ids (b0, s0)))))"
  using assms
proof (induction ids arbitrary: b0 s0)
  case Nil
  then show ?case by simp
next
  case (Cons x xs)
  have sx: "0 \<le> score_of rs x" "score_of rs x \<le> 1"
    and sxs: "\<forall>i\<in>set xs. 0 \<le> score_of rs i \<and> score_of rs i \<le> 1"
    using Cons.prems(3) by simp_all
  have above: "s < threshold s" if "s = s0 \<or> (\<exists>i\<in>set (x # xs). s = score_of rs i)" for s
    using that Cons.prems by (intro threshold_bounds(1)) fastforce+
  show ?case
  proof (cases "score_of rs x > threshold s0")
    case True
    then have step: "best_loop rs (x # xs) (b0, s0) = best_loop rs xs (x, score_of rs x)"
      by (simp add: Let_def)
    let ?R = "best_loop rs xs (x, score_of rs x)"
    have "- 1 \<le> score_of rs x" using sx(1) by simp
    from Cons.IH [OF this sx(2) sxs, of x] show ?thesis
    proof
      assume a: "?R = (x, score_of rs x) \<and> (\<forall>i\<in>set xs. score_of rs i \<le> threshold (score_of rs x))"
      have "x # xs = [] @ fst ?R # xs" using a by simp
      moreover have "score_of rs x \<le> threshold (score_of rs x)"
        using above [of "score_of rs x"] by simp
      ultimately show ?thesis
        unfolding step using a True by (intro disjI2 exI [of _ "[]"] exI [of _ xs]) auto
    next
      assume "\<exists>pre post. xs = pre @ fst ?R # post
        \<and> snd ?R = score_of rs (fst ?R)
        \<and> threshold (score_of rs x) < snd ?R
        \<and> (\<forall>i\<in>set pre. score_of rs i < snd ?R)
        \<and> (\<forall>i\<in>set xs. score_of rs i \<le> threshold (snd ?R))"
      then obtain pre post where p: "xs = pre @ fst ?R # post"
        "snd ?R = score_of rs (fst ?R)"
        "threshold (score_of rs x) < snd ?R"
        "\<forall>i\<in>set pre. score_of rs i < snd ?R"
        "\<forall>i\<in>set xs. score_of rs i \<le> threshold (snd ?R)" by blast
      have "fst ?R \<in> set xs" using p(1) by (metis in_set_conv_decomp)
      then have mem: "fst ?R \<in> set (x # xs)" by simp
      have x_less: "score_of rs x < snd ?R"
        using p(3) above [of "score_of rs x"] by simp
      have r_less: "snd ?R < threshold (snd ?R)"
        using above [of "snd ?R"] mem p(2) by blast
      have "x # xs = (x # pre) @ fst ?R # post" using p(1) by simp
      moreover have "threshold s0 < snd ?R" using x_less True by linarith
      moreover have "\<forall>i\<in>set (x # pre). score_of rs i < snd ?R" using x_less p(4) by auto
      moreover have "\<forall>i\<in>set (x # xs). score_of rs i \<le> threshold (snd ?R)"
        using x_less r_less p(5) by auto
      ultimately show ?thesis unfolding step using p(2) by blast
    qed
  next
    case False
    then have step: "best_loop rs (x # xs) (b0, s0) = best_loop rs xs (b0, s0)"
      by (simp add: Let_def)
    let ?R = "best_loop rs xs (b0, s0)"
    from Cons.IH [OF Cons.prems(1,2) sxs, of b0] show ?thesis
    proof
      assume "?R = (b0, s0) \<and> (\<forall>i\<in>set xs. score_of rs i \<le> threshold s0)"
      then show ?thesis unfolding step using False by auto
    next
      assume "\<exists>pre post. xs = pre @ fst ?R # post
        \<and> snd ?R = score_of rs (fst ?R)
        \<and> threshold s0 < snd ?R
        \<and> (\<forall>i\<in>set pre. score_of rs i < snd ?R)
        \<and> (\<forall>i\<in>set xs. score_of rs i \<le> threshold (snd ?R))"
      then obtain pre post where p: "xs = pre @ fst ?R # post"
        "snd ?R = score_of rs (fst ?R)"
        "threshold s0 < snd ?R"
        "\<forall>i\<in>set pre. score_of rs i < snd ?R"
        "\<forall>i\<in>set xs. score_of rs i \<le> threshold (snd ?R)" by blast
      have "fst ?R \<in> set xs" using p(1) by (metis in_set_conv_decomp)
      then have mem: "fst ?R \<in> set (x # xs)" by simp
      have x_less: "score_of rs x < snd ?R"
        using p(3) False by linarith
      have r_less: "snd ?R < threshold (snd ?R)"
        using above [of "snd ?R"] mem p(2) by blast
      have "x # xs = (x # pre) @ fst ?R # post" using p(1) by simp
      moreover have "\<forall>i\<in>set (x # pre). score_of rs i < snd ?R" using x_less p(4) by auto
      moreover have "\<forall>i\<in>set (x # xs). score_of rs i \<le> threshold (snd ?R)"
        using x_less r_less p(5) by auto
      ultimately show ?thesis unfolding step using p(2,3) by blast
    qed
  qed
qed

lemma commitBest_mem:
  assumes "prev \<in> set sectionIds"
  shows "commitBest sectionIds rs prev \<in> set sectionIds"
proof -
  have ne: "sectionIds \<noteq> []" using assms by auto
  then have "first_or_empty sectionIds \<in> set sectionIds"
    by (cases sectionIds) (simp_all add: first_or_empty_def)
  then have "(if prev \<noteq> [] then prev else first_or_empty sectionIds) \<in> set sectionIds"
    using assms by simp
  then have "fst (best_loop rs sectionIds (if prev \<noteq> [] then prev else first_or_empty sectionIds, - 1)) \<in> set sectionIds"
    using best_loop_mem [of rs sectionIds "(if prev \<noteq> [] then prev else first_or_empty sectionIds, - 1)"]
    by auto
  then show ?thesis using assms by (simp add: commitBest_def Let_def)
qed

lemma detector_step_mem:
  "active st \<in> set sectionIds \<Longrightarrow> active (detector_step sectionIds st ev) \<in> set sectionIds"
  by (cases ev) (simp_all add: commitBest_mem)

lemma detector_run_mem:
  "active st \<in> set sectionIds \<Longrightarrow> active (foldl (detector_step sectionIds) st evs) \<in> set sectionIds"
  by (induction evs arbitrary: st) (simp_all add: detector_step_mem)

lemma active_init_mem: "sectionIds \<noteq> [] \<Longrightarrow> active (detector_init sectionIds) \<in> set sectionIds"
  by (cases sectionIds) (simp_all add: detector_init_def first_or_empty_def)

text \<open>
  C10. For a non-empty list of section ids, whichever elements the document has and
  whatever batches of visibility samples and animation frames arrive, the active id is an
  element of the list; before any event it is the first id. For the empty list it is the
  empty string, whatever arrives.
\<close>

theorem active_section_in_list:
  "(sectionIds \<noteq> [] \<longrightarrow>
      useActiveSection sectionIds present evs \<in> set sectionIds
      \<and> useActiveSection sectionIds present [] = hd sectionIds)
   \<and> useActiveSection [] present evs = []"
proof -
  have a: "useActiveSection sectionIds present evs \<in> set sectionIds" if "sectionIds \<noteq> []"
    using active_init_mem [OF that] detector_run_mem [OF active_init_mem [OF that]]
    by (simp add: useActiveSection_def)
  have b: "useActiveSection sectionIds present [] = hd sectionIds" if "sectionIds \<noteq> []"
    using that
    by (cases sectionIds) (simp_all add: useActiveSection_def detector_init_def first_or_empty_def)
  have c: "useActiveSection [] present evs = []"
    by (simp add: useActiveSection_def detector_init_def first_or_empty_def)
  show ?thesis using a b c by blast
qed

theorem active_section_in_list_witness:
  "useActiveSection page_sectionIds (\<lambda>i. True)
     [Intersections [\<lparr>target_id = ''work'', isIntersecting = True, intersectionRatio = 7 / 10\<rparr>],
      AnimationFrame] \<in> set page_sectionIds
   \<and> useActiveSection page_sectionIds (\<lambda>i. True) [] = ''hero''"
proof -
  have ne: "page_sectionIds \<noteq> []"
    by (simp add: page_sectionIds_def)
  have "hd page_sectionIds = ''hero''"
    by (simp add: page_sectionIds_def)
  then show ?thesis
    using ne active_section_in_list [of page_sectionIds "\<lambda>i. True"
        "[Intersections [\<lparr>target_id = ''work'', isIntersecting = True, intersectionRatio = 7 / 10\<rparr>],
          AnimationFrame]"]
    by simp
qed

lemma commitBest_unit_interval:
  assumes ne: "sectionIds \<noteq> []" and nonempty: "[] \<notin> set sectionIds"
    and unit: "\<forall>i\<in>set sectionIds. 0 \<le> score_of rs i \<and> score_of rs i \<le> 1"
  shows "\<exists>pre post. sectionIds = pre @ commitBest sectionIds rs prev # post
           \<and> commitBest sectionIds rs prev = fst (best_loop rs sectionIds (c, - 1))
           \<and> (\<forall>i\<in>set pre. score_of rs i < score_of rs (commitBest sectionIds rs prev))
           \<and> (\<forall>i\<in>set sectionIds.
                 score_of rs i \<le> threshold (score_of rs (commitBest sectionIds rs prev)))"
proof -
  define b0 where "b0 = (if prev \<noteq> [] then prev else first_or_empty sectionIds)"
  have fst_eq: "fst (best_loop rs sectionIds (x, - 1)) = fst (best_loop rs sectionIds (y, - 1))" for x y
  proof (cases sectionIds)
    case Nil
    then show ?thesis using ne by simp
  next
    case (Cons i ids)
    then have "threshold (- 1) < score_of rs i"
      using unit threshold_minus_one by fastforce
    then show ?thesis using Cons by (simp add: Let_def)
  qed
  let ?R = "best_loop rs sectionIds (b0, - 1)"
  obtain i where i: "i \<in> set sectionIds" using ne by (cases sectionIds) auto
  then have "\<not> score_of rs i \<le> threshold (- 1)"
    using unit threshold_minus_one by fastforce
  then have "\<not> (\<forall>i\<in>set sectionIds. score_of rs i \<le> threshold (- 1))" using i by blast
  with best_loop_cases [of "- 1" sectionIds rs b0, OF _ _ unit]
  obtain pre post where p: "sectionIds = pre @ fst ?R # post"
    "snd ?R = score_of rs (fst ?R)"
    "\<forall>i\<in>set pre. score_of rs i < snd ?R"
    "\<forall>i\<in>set sectionIds. score_of rs i \<le> threshold (snd ?R)" by auto
  have "fst ?R \<in> set sectionIds" using p(1) by (metis in_set_conv_decomp)
  then have "fst ?R \<noteq> []" using nonempty by auto
  then have cb: "commitBest sectionIds rs prev = fst ?R"
    by (auto simp: commitBest_def Let_def b0_def)
  show ?thesis
    unfolding cb using p fst_eq [of b0 c] by (intro exI [of _ pre] exI [of _ post]) simp
qed

lemma best_loop_cong:
  "\<forall>i\<in>set ids. score_of rs' i = score_of rs i \<Longrightarrow> best_loop rs' ids best = best_loop rs ids best"
  by (induction ids arbitrary: best) (simp_all add: Let_def)

lemma page_ids: "page_sectionIds \<noteq> []" "[] \<notin> set page_sectionIds"
  by (simp_all add: page_sectionIds_def)

text \<open>
  C4 (amended). For a non-empty list of non-empty section ids and recorded ratios in
  \<open>[0, 1]\<close>, the recomputation goes through the ids in their declared order and returns
  an id of the list such that every id before it in the list has a strictly smaller
  ratio and no id of the list has a ratio above the sum, rounded to double precision, of
  its own ratio and \<open>1e-6\<close>; that sum is at most the ratio plus \<open>1e-6 + 2^-52\<close>. So an
  id whose ratio is above the rounded sum of \<open>1e-6\<close> and the ratio of each other id (as
  it is when it leads each by more than \<open>1e-6 + 2^-52\<close>) is the one returned, and among
  ids whose ratios are exactly equal only the earliest can be. The result depends only on
  the ratios recorded for the ids of the list: not on the previous active id, nor on how
  the mapping came about. For \<open>{hero: 0.1, meaning: 0.9, pattern: 0.0}\<close> it is
  \<open>meaning\<close>.
\<close>

theorem best_candidate_within_epsilon:
  assumes "sectionIds \<noteq> []" and "[] \<notin> set sectionIds"
    and "\<forall>i\<in>set sectionIds. 0 \<le> score_of rs i \<and> score_of rs i \<le> 1"
  shows "(\<exists>pre post. sectionIds = pre @ commitBest sectionIds rs prev # post
            \<and> (\<forall>i\<in>set pre. score_of rs i < score_of rs (commitBest sectionIds rs prev))
            \<and> (\<forall>i\<in>set sectionIds.
                  score_of rs i \<le> threshold (score_of rs (commitBest sectionIds rs prev))
                  \<and> score_of rs i
                      \<le> score_of rs (commitBest sectionIds rs prev) + 1 / 1000000 + 1 / 2 ^ 52))
         \<and> (\<forall>t\<in>set sectionIds.
               (\<forall>i\<in>set sectionIds. i \<noteq> t \<longrightarrow> threshold (score_of rs i) < score_of rs t) \<longrightarrow>
               commitBest sectionIds rs prev = t)
         \<and> (\<forall>t\<in>set sectionIds.
               (\<forall>i\<in>set sectionIds. i \<noteq> t \<longrightarrow>
                  score_of rs i + 1 / 1000000 + 1 / 2 ^ 52 < score_of rs t) \<longrightarrow>
               commitBest sectionIds rs prev = t)
         \<and> (\<forall>rs' prev'. (\<forall>i\<in>set sectionIds. score_of rs' i = score_of rs i) \<longrightarrow>
               commitBest sectionIds rs' prev' = commitBest sectionIds rs prev)
         \<and> commitBest page_sectionIds
              (Map.empty(''hero'' \<mapsto> to_double (1 / 10), ''meaning'' \<mapsto> to_double (9 / 10),
                         ''pattern'' \<mapsto> 0)) prev
            = ''meaning''"
proof -
  let ?best = "commitBest sectionIds rs prev"
  obtain pre post where p: "sectionIds = pre @ ?best # post"
    "?best = fst (best_loop rs sectionIds ([], - 1))"
    "\<forall>i\<in>set pre. score_of rs i < score_of rs ?best"
    "\<forall>i\<in>set sectionIds. score_of rs i \<le> threshold (score_of rs ?best)"
    using commitBest_unit_interval [OF assms, of prev "[]"] by blast
  have mem: "?best \<in> set sectionIds"
    using p(1) by (metis in_set_conv_decomp)
  have unit: "- 1 \<le> score_of rs i" "score_of rs i \<le> 1" if "i \<in> set sectionIds" for i
    using assms(3) that by fastforce+
  have plain: "threshold (score_of rs i) \<le> score_of rs i + 1 / 1000000 + 1 / 2 ^ 52"
    if "i \<in> set sectionIds" for i
    using threshold_bounds(2) [OF unit [OF that]] .
  have a: "\<exists>pre post. sectionIds = pre @ ?best # post
            \<and> (\<forall>i\<in>set pre. score_of rs i < score_of rs ?best)
            \<and> (\<forall>i\<in>set sectionIds.
                  score_of rs i \<le> threshold (score_of rs ?best)
                  \<and> score_of rs i \<le> score_of rs ?best + 1 / 1000000 + 1 / 2 ^ 52)"
  proof -
    have "\<forall>i\<in>set sectionIds.
            score_of rs i \<le> threshold (score_of rs ?best)
            \<and> score_of rs i \<le> score_of rs ?best + 1 / 1000000 + 1 / 2 ^ 52"
      using p(4) plain [OF mem] by fastforce
    then show ?thesis using p(1,3) by blast
  qed
  have b: "\<forall>t\<in>set sectionIds.
            (\<forall>i\<in>set sectionIds. i \<noteq> t \<longrightarrow> threshold (score_of rs i) < score_of rs t) \<longrightarrow>
            ?best = t"
  proof (intro ballI impI)
    fix t
    assume t: "t \<in> set sectionIds"
      and lead: "\<forall>i\<in>set sectionIds. i \<noteq> t \<longrightarrow> threshold (score_of rs i) < score_of rs t"
    show "?best = t"
    proof (rule ccontr)
      assume "?best \<noteq> t"
      then have "threshold (score_of rs ?best) < score_of rs t"
        using lead mem by blast
      moreover have "score_of rs t \<le> threshold (score_of rs ?best)"
        using p(4) t by blast
      ultimately show False by simp
    qed
  qed
  have b': "\<forall>t\<in>set sectionIds.
            (\<forall>i\<in>set sectionIds. i \<noteq> t \<longrightarrow>
               score_of rs i + 1 / 1000000 + 1 / 2 ^ 52 < score_of rs t) \<longrightarrow>
            ?best = t"
  proof (intro ballI impI)
    fix t
    assume t: "t \<in> set sectionIds"
      and lead: "\<forall>i\<in>set sectionIds. i \<noteq> t \<longrightarrow>
                   score_of rs i + 1 / 1000000 + 1 / 2 ^ 52 < score_of rs t"
    have "\<forall>i\<in>set sectionIds. i \<noteq> t \<longrightarrow> threshold (score_of rs i) < score_of rs t"
      using lead plain by fastforce
    then show "?best = t" using b t by blast
  qed
  have c: "\<forall>rs' prev'. (\<forall>i\<in>set sectionIds. score_of rs' i = score_of rs i) \<longrightarrow>
            commitBest sectionIds rs' prev' = ?best"
  proof (intro allI impI)
    fix rs' :: ratio_map and prev' :: string
    assume same: "\<forall>i\<in>set sectionIds. score_of rs' i = score_of rs i"
    then have "\<forall>i\<in>set sectionIds. 0 \<le> score_of rs' i \<and> score_of rs' i \<le> 1"
      using assms(3) by simp
    from commitBest_unit_interval [OF assms(1,2) this, of prev' "[]"]
    have "commitBest sectionIds rs' prev' = fst (best_loop rs' sectionIds ([], - 1))"
      by blast
    then show "commitBest sectionIds rs' prev' = ?best"
      using p(2) best_loop_cong [OF same] by simp
  qed
  let ?ex = "Map.empty(''hero'' \<mapsto> to_double (1 / 10), ''meaning'' \<mapsto> to_double (9 / 10),
                       ''pattern'' \<mapsto> 0)"
  have ex_unit: "\<forall>i\<in>set page_sectionIds. 0 \<le> score_of ?ex i \<and> score_of ?ex i \<le> 1"
    by code_simp
  have ex_eval: "commitBest page_sectionIds ?ex [] = ''meaning''"
    by code_simp
  obtain pre' post' where "commitBest page_sectionIds ?ex prev
      = fst (best_loop ?ex page_sectionIds ([], - 1))"
    using commitBest_unit_interval [OF page_ids ex_unit, of prev "[]"] by blast
  moreover obtain pre'' post'' where "commitBest page_sectionIds ?ex []
      = fst (best_loop ?ex page_sectionIds ([], - 1))"
    using commitBest_unit_interval [OF page_ids ex_unit, of "[]" "[]"] by blast
  ultimately have d: "commitBest page_sectionIds ?ex prev = ''meaning''"
    using ex_eval by simp
  show ?thesis using a b b' c d by blast
qed

theorem best_candidate_within_epsilon_witness:
  "commitBest page_sectionIds
     (store_entries Map.empty
        [\<lparr>target_id = ''meaning'', isIntersecting = True, intersectionRatio = to_double (9 / 10)\<rparr>,
         \<lparr>target_id = ''hero'', isIntersecting = True, intersectionRatio = to_double (1 / 10)\<rparr>,
         \<lparr>target_id = ''pattern'', isIntersecting = False, intersectionRatio = 0\<rparr>]) ''hero''
     = ''meaning''
   \<and> commitBest page_sectionIds
     (Map.empty(''hero'' \<mapsto> to_double (1 / 10), ''meaning'' \<mapsto> to_double (9 / 10),
                ''pattern'' \<mapsto> 0)) ''pattern''
     = ''meaning''"
proof -
  let ?rs = "store_entries Map.empty
        [\<lparr>target_id = ''meaning'', isIntersecting = True, intersectionRatio = to_double (9 / 10)\<rparr>,
         \<lparr>target_id = ''hero'', isIntersecting = True, intersectionRatio = to_double (1 / 10)\<rparr>,
         \<lparr>target_id = ''pattern'', isIntersecting = False, intersectionRatio = 0\<rparr>]"
  have h3: "\<forall>i\<in>set page_sectionIds. 0 \<le> score_of ?rs i \<and> score_of ?rs i \<le> 1"
    by code_simp
  have mem: "''meaning'' \<in> set page_sectionIds"
    by (simp add: page_sectionIds_def)
  have lead: "\<forall>i\<in>set page_sectionIds. i \<noteq> ''meaning'' \<longrightarrow>
                threshold (score_of ?rs i) < score_of ?rs ''meaning''"
    by code_simp
  show ?thesis
    using best_candidate_within_epsilon [OF page_ids h3, of "''hero''"]
      best_candidate_within_epsilon [OF page_ids h3, of "''pattern''"] mem lead
    by blast
qed

text \<open>
  Without the margin the statement fails: with \<open>{hero: 0.5, meaning: 0.5000005}\<close> the id
  with the highest ratio is \<open>meaning\<close>, and the recomputation returns \<open>hero\<close>.
\<close>

theorem best_candidate_not_highest_counterexample:
  "commitBest page_sectionIds
     (Map.empty(''hero'' \<mapsto> 1 / 2, ''meaning'' \<mapsto> to_double (5000005 / 10000000))) ''hero''
     = ''hero''
   \<and> score_of (Map.empty(''hero'' \<mapsto> 1 / 2, ''meaning'' \<mapsto> to_double (5000005 / 10000000)))
         ''hero''
       < score_of (Map.empty(''hero'' \<mapsto> 1 / 2, ''meaning'' \<mapsto> to_double (5000005 / 10000000)))
           ''meaning''"
  by code_simp

text \<open>
  C3 (amended). On the page's section list, with the stored ratios
  \<open>{meaning: rm, pattern: rp}\<close> (every other section \<open>0\<close>), whichever section was active
  before: a section replaces the best found so far, in declared order, exactly when its
  ratio is above the sum, rounded to double precision, of the best ratio so far and
  \<open>1e-6\<close>. So when \<open>rm\<close> is above \<open>1e-6\<close> the result is \<open>pattern\<close> if \<open>rp\<close> is above
  the rounded sum of \<open>rm\<close> and \<open>1e-6\<close>, and \<open>meaning\<close> otherwise; when \<open>rm\<close> is at most
  \<open>1e-6\<close> the result is \<open>pattern\<close> if \<open>rp\<close> is above \<open>1e-6\<close>, and \<open>hero\<close> otherwise.
  For ratios up to \<open>1\<close> the rounded sum is within \<open>2^-52\<close> of \<open>rm + 1e-6\<close>. The ratio
  of the previous active section is not consulted.
\<close>

theorem near_tie_margin_one_millionth:
  assumes "0 \<le> rm" and "0 \<le> rp"
  shows "commitBest page_sectionIds (Map.empty(''meaning'' \<mapsto> rm, ''pattern'' \<mapsto> rp)) prev =
           (if literal_1e_6 < rm then (if threshold rm < rp then ''pattern'' else ''meaning'')
            else if literal_1e_6 < rp then ''pattern'' else ''hero'')
         \<and> (rm \<le> 1 \<longrightarrow>
              rm + 1 / 1000000 - 1 / 2 ^ 52 \<le> threshold rm
              \<and> threshold rm \<le> rm + 1 / 1000000 + 1 / 2 ^ 52)"
proof -
  have neg: "threshold (- 1) < 0" by (rule threshold_minus_one)
  have m: "\<not> threshold rm < 0" and p: "\<not> threshold rp < 0" and z: "\<not> literal_1e_6 < 0"
    using threshold_nonneg [OF assms(1)] threshold_nonneg [OF assms(2)]
    by (simp_all add: literal_1e_6_value)
  have a: "commitBest page_sectionIds (Map.empty(''meaning'' \<mapsto> rm, ''pattern'' \<mapsto> rp)) prev =
           (if literal_1e_6 < rm then (if threshold rm < rp then ''pattern'' else ''meaning'')
            else if literal_1e_6 < rp then ''pattern'' else ''hero'')"
    using neg m p z
    by (simp add: commitBest_def page_sectionIds_def score_of_def Let_def threshold_zero)
  have b: "rm \<le> 1 \<longrightarrow>
              rm + 1 / 1000000 - 1 / 2 ^ 52 \<le> threshold rm
              \<and> threshold rm \<le> rm + 1 / 1000000 + 1 / 2 ^ 52"
    using threshold_bounds(2,3) [of rm] assms(1) by simp
  show ?thesis using a b by blast
qed

theorem near_tie_margin_one_millionth_witness:
  "commitBest page_sectionIds
     (Map.empty(''meaning'' \<mapsto> 1 / 2, ''pattern'' \<mapsto> to_double (500001 / 1000000))) ''meaning''
     = ''meaning''
   \<and> commitBest page_sectionIds
     (Map.empty(''meaning'' \<mapsto> 1 / 2, ''pattern'' \<mapsto> to_double (501 / 1000))) ''hero''
     = ''pattern''"
proof -
  have h: "(0::rat) \<le> 1 / 2" "0 \<le> to_double (500001 / 1000000)" "0 \<le> to_double (501 / 1000)"
    by (simp, code_simp, code_simp)
  have c: "literal_1e_6 < 1 / 2" "\<not> threshold (1 / 2) < to_double (500001 / 1000000)"
    "threshold (1 / 2) < to_double (501 / 1000)"
    by code_simp+
  show ?thesis
    using c near_tie_margin_one_millionth [OF h(1) h(2), of "''meaning''"]
      near_tie_margin_one_millionth [OF h(1) h(3), of "''hero''"]
    by simp
qed

text \<open>
  At \<open>{meaning: 0.50, pattern: 0.501}\<close> with \<open>meaning\<close> active before, \<open>0.501\<close> is
  above the rounded sum and \<open>pattern\<close> displaces \<open>meaning\<close>. The previous active section
  is not retained either: at \<open>{meaning: 0.5, pattern: 0.5}\<close> with \<open>pattern\<close> active
  before the result is \<open>meaning\<close>, and at \<open>{meaning: 1e-7}\<close> with \<open>meaning\<close> active
  before it is \<open>hero\<close>, whose ratio is \<open>0\<close>.
\<close>

theorem near_tie_example_counterexample:
  "commitBest page_sectionIds
     (Map.empty(''meaning'' \<mapsto> 1 / 2, ''pattern'' \<mapsto> to_double (501 / 1000))) ''meaning''
     = ''pattern''
   \<and> commitBest page_sectionIds
     (Map.empty(''meaning'' \<mapsto> 1 / 2, ''pattern'' \<mapsto> 1 / 2)) ''pattern'' = ''meaning''
   \<and> commitBest page_sectionIds
     (Map.empty(''meaning'' \<mapsto> to_double (1 / 10000000), ''pattern'' \<mapsto> 0)) ''meaning''
     = ''hero''"
  by code_simp

subsection \<open>The tint mix\<close>

lemma hex_digit_range: "hex_digit c = Some d \<Longrightarrow> 0 \<le> d \<and> d < 16"
  by (auto simp: hex_digit_def Let_def split: if_splits)

lemma hex_digit_plain:
  "hex_digit c = Some d \<Longrightarrow>
     \<not> is_white_space c \<and> c \<noteq> CHR ''-'' \<and> c \<noteq> CHR ''+'' \<and> c \<noteq> CHR ''x'' \<and> c \<noteq> CHR ''X''
     \<and> c \<noteq> CHR ''#''"
  by (auto simp: hex_digit_def is_white_space_def Let_def split: if_splits)

lemma and_255: "(x :: int) AND 255 = x mod 256"
proof -
  have "(255 :: int) = mask 8" by (simp add: mask_eq_exp_minus_1)
  then have "x AND 255 = take_bit 8 x" by (simp add: take_bit_eq_mask)
  then show ?thesis by (simp add: take_bit_eq_mod)
qed

lemma split_div:
  fixes q rr k :: int
  assumes "0 \<le> rr" "rr < k"
  shows "(k * q + rr) div k = q" "(k * q + rr) mod k = rr"
  using assms by (simp_all add: div_pos_pos_trivial)

lemma channels_of_value:
  fixes d1 d2 d3 d4 d5 d6 :: int
  assumes "0 \<le> d1 \<and> d1 < 16" "0 \<le> d2 \<and> d2 < 16" "0 \<le> d3 \<and> d3 < 16"
    "0 \<le> d4 \<and> d4 < 16" "0 \<le> d5 \<and> d5 < 16" "0 \<le> d6 \<and> d6 < 16"
  defines "v \<equiv> 16 * (16 * (16 * (16 * (16 * d1 + d2) + d3) + d4) + d5) + d6"
  shows "v div 65536 mod 256 = 16 * d1 + d2" "v div 256 mod 256 = 16 * d3 + d4"
    "v mod 256 = 16 * d5 + d6" "0 \<le> v" "v < 16777216"
proof -
  have a: "v = 65536 * (16 * d1 + d2) + (256 * (16 * d3 + d4) + (16 * d5 + d6))"
    by (simp add: v_def)
  have b: "v = 256 * (256 * (16 * d1 + d2) + (16 * d3 + d4)) + (16 * d5 + d6)"
    by (simp add: v_def)
  have r1: "0 \<le> 16 * d1 + d2" "16 * d1 + d2 < 256" using assms(1,2) by auto
  have r2: "0 \<le> 16 * d3 + d4" "16 * d3 + d4 < 256" using assms(3,4) by auto
  have r3: "0 \<le> 16 * d5 + d6" "16 * d5 + d6 < 256" using assms(5,6) by auto
  have "v div 65536 = 16 * d1 + d2"
    unfolding a using r2 r3 by (intro split_div) auto
  then show "v div 65536 mod 256 = 16 * d1 + d2" using r1 by simp
  have "v div 256 = 256 * (16 * d1 + d2) + (16 * d3 + d4)"
    unfolding b using r3 by (intro split_div) auto
  then show "v div 256 mod 256 = 16 * d3 + d4" using r2 split_div(2) [of "16 * d3 + d4" 256 "16 * d1 + d2"] by simp
  show "v mod 256 = 16 * d5 + d6"
    unfolding b using r3 by (intro split_div) auto
  show "0 \<le> v" using r1 r2 r3 unfolding a by simp
  show "v < 16777216" using r1 r2 r3 unfolding a by simp
qed


lemma parseInt16_six:
  assumes "hex_digit c1 = Some d1" "hex_digit c2 = Some d2" "hex_digit c3 = Some d3"
    "hex_digit c4 = Some d4" "hex_digit c5 = Some d5" "hex_digit c6 = Some d6"
  shows "parseInt16 [c1, c2, c3, c4, c5, c6] =
           Finite (16 * (16 * (16 * (16 * (16 * d1 + d2) + d3) + d4) + d5) + d6)"
  using assms hex_digit_plain [OF assms(1)] hex_digit_plain [OF assms(2)]
  by (simp add: parseInt16_def digits_value_def Let_def)

lemma replace_hash_six:
  assumes "hex_digit c1 = Some d1" "hex_digit c2 = Some d2" "hex_digit c3 = Some d3"
    "hex_digit c4 = Some d4" "hex_digit c5 = Some d5" "hex_digit c6 = Some d6"
  shows "replace_hash [c1, c2, c3, c4, c5, c6] = [c1, c2, c3, c4, c5, c6]"
    "replace_hash (CHR ''#'' # [c1, c2, c3, c4, c5, c6]) = [c1, c2, c3, c4, c5, c6]"
  using hex_digit_plain [OF assms(1)] hex_digit_plain [OF assms(2)] hex_digit_plain [OF assms(3)]
    hex_digit_plain [OF assms(4)] hex_digit_plain [OF assms(5)] hex_digit_plain [OF assms(6)]
  by simp_all

lemma hexToRgb_six:
  assumes "hex_digit c1 = Some d1" "hex_digit c2 = Some d2" "hex_digit c3 = Some d3"
    "hex_digit c4 = Some d4" "hex_digit c5 = Some d5" "hex_digit c6 = Some d6"
    and "hex = [c1, c2, c3, c4, c5, c6] \<or> hex = CHR ''#'' # [c1, c2, c3, c4, c5, c6]"
  shows "hexToRgb hex = \<lparr>r = 16 * d1 + d2, g = 16 * d3 + d4, b = 16 * d5 + d6\<rparr>"
proof -
  let ?v = "16 * (16 * (16 * (16 * (16 * d1 + d2) + d3) + d4) + d5) + d6"
  note ch = channels_of_value [OF hex_digit_range [OF assms(1)] hex_digit_range [OF assms(2)]
      hex_digit_range [OF assms(3)] hex_digit_range [OF assms(4)]
      hex_digit_range [OF assms(5)] hex_digit_range [OF assms(6)]]
  have rh: "replace_hash hex = [c1, c2, c3, c4, c5, c6]"
    using assms(7) replace_hash_six [OF assms(1-6)] by auto
  have m: "?v mod 4294967296 = ?v"
    using ch(4,5) by simp
  have t: "to_int32 (Finite ?v) = ?v"
    using ch(4,5) by (simp add: to_int32_def Let_def m)
  show ?thesis
    unfolding hexToRgb_def rh parseInt16_six [OF assms(1-6)] Let_def shift_right_def t
      and_255 drop_bit_eq_div
    using ch(1,2,3) by simp
qed


lemma math_round_of_int: "math_round (of_int n) = n"
  unfolding math_round_def by linarith

lemma mixChannels_zero: "mixChannels a c 0 = hexToRgb a"
  by (simp add: mixChannels_def lerp_def Let_def math_round_of_int)

lemma mixChannels_one: "mixChannels a c 1 = hexToRgb c"
  by (simp add: mixChannels_def lerp_def Let_def math_round_of_int)

lemma lerp_half: "lerp x y (1 / 2) = (x + y) / 2"
  by (simp add: lerp_def field_simps)

lemma math_round_midpoint:
  "math_round ((of_int m + of_int n) / 2) = (m + n + 1) div 2"
proof -
  have "(of_int m + of_int n) / 2 + 1 / 2 = (of_int (m + n + 1) :: rat) / of_int 2"
    by (simp add: field_simps)
  then show ?thesis
    unfolding math_round_def by (simp only: floor_divide_of_int_eq)
qed

text \<open>
  C7 (amended). For all color strings \<open>a\<close> and \<open>c\<close>: the mix at \<open>0\<close> is \<open>a\<close>
  and the mix at \<open>1\<close> is \<open>c\<close>, channel by channel; each channel of the mix at
  \<open>0.5\<close> is the midpoint of the two channels rounded by \<open>Math.round\<close> to the
  nearest integer, a half upwards, that is \<open>(x + y + 1) div 2\<close>. For a string of six
  hexadecimal digits, with or without a leading \<open>#\<close>, the channels are the values of
  its three digit pairs.
\<close>

theorem mix_boundaries_and_rounded_midpoint:
  "mixHex a c 0 = rgb_string (hexToRgb a)
   \<and> mixHex a c 1 = rgb_string (hexToRgb c)
   \<and> mixChannels a c (1 / 2) =
       \<lparr>r = math_round ((of_int (r (hexToRgb a)) + of_int (r (hexToRgb c))) / 2),
        g = math_round ((of_int (g (hexToRgb a)) + of_int (g (hexToRgb c))) / 2),
        b = math_round ((of_int (b (hexToRgb a)) + of_int (b (hexToRgb c))) / 2)\<rparr>
   \<and> mixHex a c (1 / 2) =
       rgb_string \<lparr>r = (r (hexToRgb a) + r (hexToRgb c) + 1) div 2,
                   g = (g (hexToRgb a) + g (hexToRgb c) + 1) div 2,
                   b = (b (hexToRgb a) + b (hexToRgb c) + 1) div 2\<rparr>
   \<and> (hex_digit c1 = Some d1 \<and> hex_digit c2 = Some d2 \<and> hex_digit c3 = Some d3
      \<and> hex_digit c4 = Some d4 \<and> hex_digit c5 = Some d5 \<and> hex_digit c6 = Some d6
      \<and> (a = [c1, c2, c3, c4, c5, c6] \<or> a = CHR ''#'' # [c1, c2, c3, c4, c5, c6]) \<longrightarrow>
      hexToRgb a = \<lparr>r = 16 * d1 + d2, g = 16 * d3 + d4, b = 16 * d5 + d6\<rparr>)"
proof -
  have h: "mixChannels a c (1 / 2) =
       \<lparr>r = math_round ((of_int (r (hexToRgb a)) + of_int (r (hexToRgb c))) / 2),
        g = math_round ((of_int (g (hexToRgb a)) + of_int (g (hexToRgb c))) / 2),
        b = math_round ((of_int (b (hexToRgb a)) + of_int (b (hexToRgb c))) / 2)\<rparr>"
    by (simp only: mixChannels_def Let_def lerp_half)
  have s: "mixHex a c (1 / 2) =
       rgb_string \<lparr>r = (r (hexToRgb a) + r (hexToRgb c) + 1) div 2,
                   g = (g (hexToRgb a) + g (hexToRgb c) + 1) div 2,
                   b = (b (hexToRgb a) + b (hexToRgb c) + 1) div 2\<rparr>"
    by (simp only: mixHex_def h math_round_midpoint)
  have six: "hex_digit c1 = Some d1 \<and> hex_digit c2 = Some d2 \<and> hex_digit c3 = Some d3
      \<and> hex_digit c4 = Some d4 \<and> hex_digit c5 = Some d5 \<and> hex_digit c6 = Some d6
      \<and> (a = [c1, c2, c3, c4, c5, c6] \<or> a = CHR ''#'' # [c1, c2, c3, c4, c5, c6]) \<longrightarrow>
      hexToRgb a = \<lparr>r = 16 * d1 + d2, g = 16 * d3 + d4, b = 16 * d5 + d6\<rparr>"
    using hexToRgb_six [of c1 d1 c2 d2 c3 d3 c4 d4 c5 d5 c6 d6 a] by blast
  show ?thesis
    using h s six by (simp only: mixHex_def mixChannels_zero mixChannels_one)
qed

theorem mix_boundaries_and_rounded_midpoint_witness:
  "hexToRgb ''#1F2A33'' = \<lparr>r = 31, g = 42, b = 51\<rparr>
   \<and> mixHex ''#1F2A33'' ''#F5F7F6'' 0 = rgb_string \<lparr>r = 31, g = 42, b = 51\<rparr>"
proof -
  have d: "hex_digit CHR ''1'' = Some 1 \<and> hex_digit CHR ''F'' = Some 15 \<and> hex_digit CHR ''2'' = Some 2
      \<and> hex_digit CHR ''A'' = Some 10 \<and> hex_digit CHR ''3'' = Some 3 \<and> hex_digit CHR ''3'' = Some 3
      \<and> (''#1F2A33'' = [CHR ''1'', CHR ''F'', CHR ''2'', CHR ''A'', CHR ''3'', CHR ''3'']
          \<or> ''#1F2A33'' = CHR ''#'' # [CHR ''1'', CHR ''F'', CHR ''2'', CHR ''A'', CHR ''3'', CHR ''3''])"
    by (simp add: hex_digit_def)
  show ?thesis
    using d mix_boundaries_and_rounded_midpoint
      [of "''#1F2A33''" "''#F5F7F6''" "CHR ''1''" 1 "CHR ''F''" 15 "CHR ''2''" 2 "CHR ''A''" 10
          "CHR ''3''" 3 "CHR ''3''" 3]
    by simp
qed

text \<open>
  The exact midpoint is not what the mix at \<open>0.5\<close> returns when the two channels
  have an odd sum: for the blue channels \<open>0\<close> and \<open>1\<close> it returns \<open>1\<close>, not
  \<open>0.5\<close>.
\<close>

theorem mix_midpoint_not_exact_counterexample:
  "mixHex ''#000000'' ''#000001'' (1 / 2) = ''rgb(0, 0, 1)''
   \<and> hexToRgb ''#000000'' = \<lparr>r = 0, g = 0, b = 0\<rparr>
   \<and> hexToRgb ''#000001'' = \<lparr>r = 0, g = 0, b = 1\<rparr>
   \<and> (of_int (b (mixChannels ''#000000'' ''#000001'' (1 / 2))) :: rat)
       \<noteq> (of_int (b (hexToRgb ''#000000'')) + of_int (b (hexToRgb ''#000001''))) / 2"
  by code_simp

subsection \<open>The background crossfade\<close>

lemma display_effect_ready:
  "display_effect reg k dk = dk \<or> image_ready reg (display_effect reg k dk)"
proof (cases "k = ''none''")
  case True
  then show ?thesis
    by (simp add: display_effect_def image_ready_def rendered_image_def cfgFor_def)
next
  case False
  show ?thesis
  proof (cases "cfgFor k")
    case None
    then show ?thesis using False
      by (simp add: display_effect_def image_ready_def rendered_image_def)
  next
    case (Some c)
    then show ?thesis using False
      by (simp add: display_effect_def image_ready_def rendered_image_def isLoaded_def set_has_def)
  qed
qed

lemma image_ready_add: "image_ready reg dk \<Longrightarrow> image_ready (set_add reg u) dk"
  by (auto simp: image_ready_def set_add_def split: option.splits)

lemma crossfade_step_inv:
  assumes "displayKey st = k0 \<or> image_ready (loadedRef st) (displayKey st)"
  shows "displayKey (crossfade_step st ev) = k0
         \<or> image_ready (loadedRef (crossfade_step st ev)) (displayKey (crossfade_step st ev))"
proof (cases ev)
  case (ActiveChanged act)
  then show ?thesis
    using assms display_effect_ready [of "loadedRef st" "key_of act" "displayKey st"]
    by (auto simp: Let_def)
next
  case (ImageLoaded u)
  then show ?thesis
    using assms by (auto simp: image_ready_add)
qed

lemma crossfade_run_inv:
  "displayKey st = k0 \<or> image_ready (loadedRef st) (displayKey st) \<Longrightarrow>
   displayKey (foldl crossfade_step st evs) = k0
   \<or> image_ready (loadedRef (foldl crossfade_step st evs)) (displayKey (foldl crossfade_step st evs))"
proof (induction evs arbitrary: st)
  case Nil
  then show ?case by simp
next
  case (Cons ev evs)
  show ?case
    using Cons.IH [OF crossfade_step_inv [OF Cons.prems]] by simp
qed

lemma unloaded_keeps_display:
  assumes "cfgFor (key_of act) = Some c" and "image c \<noteq> []" and "image c \<notin> set (loadedRef st)"
  shows "displayKey (crossfade_step st (ActiveChanged act)) = displayKey st"
proof -
  have "key_of act \<noteq> ''none''"
    using assms(1) by (auto simp: cfgFor_def)
  then show ?thesis
    using assms by (simp add: Let_def display_effect_def isLoaded_def set_has_def)
qed

lemma mount_displays_active_key:
  "displayKey (mount act) = key_of act \<and> loadedRef (mount act) = []"
  by (simp add: mount_def display_effect_def Let_def split: option.splits)

text \<open>
  C1 (amended). In every state the renderer reaches from its mount, the displayed
  configuration is the one displayed at mount, or it draws no image, or it draws an image
  whose URL is in the loaded registry. At mount the renderer displays the configuration
  of the active section without consulting the registry. In any state, when the active
  section changes to one whose image URL is not in the registry, and when the preloader
  adds a URL, the displayed id stays what it was.
\<close>

theorem displayed_image_loaded_unless_mounted:
  "(displayKey (foldl crossfade_step (mount act) evs) = displayKey (mount act)
      \<or> image_ready (loadedRef (foldl crossfade_step (mount act) evs))
           (displayKey (foldl crossfade_step (mount act) evs)))
   \<and> (cfgFor (key_of act') = Some c \<and> image c \<noteq> [] \<and> image c \<notin> set (loadedRef st) \<longrightarrow>
        displayKey (crossfade_step st (ActiveChanged act')) = displayKey st)
   \<and> displayKey (crossfade_step st (ImageLoaded u)) = displayKey st"
  using crossfade_run_inv [of "mount act" "displayKey (mount act)" evs]
    unloaded_keeps_display [of act' c st]
  by simp

theorem displayed_image_loaded_unless_mounted_witness:
  "displayKey (foldl crossfade_step (mount ''hero'')
      [ImageLoaded ''/pics/pattern.JPG'', ActiveChanged ''pattern'']) = ''pattern''
   \<and> image_ready
       (loadedRef (foldl crossfade_step (mount ''hero'')
          [ImageLoaded ''/pics/pattern.JPG'', ActiveChanged ''pattern'']))
       (displayKey (foldl crossfade_step (mount ''hero'')
          [ImageLoaded ''/pics/pattern.JPG'', ActiveChanged ''pattern'']))
   \<and> displayKey (crossfade_step (mount ''hero'') (ActiveChanged ''meaning'')) = ''hero''"
proof -
  let ?st = "foldl crossfade_step (mount ''hero'')
      [ImageLoaded ''/pics/pattern.JPG'', ActiveChanged ''pattern'']"
  have dk: "displayKey ?st = ''pattern''" and m: "displayKey (mount ''hero'') = ''hero''"
    by code_simp+
  have cfg: "cfgFor (key_of ''meaning'') = Some (the (cfgFor ''meaning''))
             \<and> image (the (cfgFor ''meaning'')) \<noteq> []
             \<and> image (the (cfgFor ''meaning'')) \<notin> set (loadedRef (mount ''hero''))"
    by (simp add: key_of_def cfgFor_def mount_def Let_def)
  show ?thesis
    using dk m cfg
      displayed_image_loaded_unless_mounted
        [of "''hero''" "[ImageLoaded ''/pics/pattern.JPG'', ActiveChanged ''pattern'']"
            "''meaning''" "the (cfgFor ''meaning'')" "mount ''hero''"]
    by simp
qed

text \<open>
  At mount itself the invariant without the exception fails: the page mounts with \<open>hero\<close>
  active and the registry empty, and the renderer draws \<open>/pics/Vision_bg.png\<close>.
\<close>

theorem mount_draws_unloaded_image_counterexample:
  "rendered_image (displayKey (mount ''hero'')) = Some ''/pics/Vision_bg.png''
   \<and> ''/pics/Vision_bg.png'' \<notin> set (loadedRef (mount ''hero''))
   \<and> \<not> image_ready (loadedRef (mount ''hero'')) (displayKey (mount ''hero''))"
  by (simp add: mount_def key_of_def display_effect_def cfgFor_def isLoaded_def set_has_def
      rendered_image_def image_ready_def Let_def)

text \<open>
  When the key changes to \<open>none\<close>, to a configuration without an
  image, or to one whose image URL is in the registry, the displayed id becomes that key
  in the same step.
\<close>

lemma ready_switches_display:
  assumes "key_of act \<noteq> key st"
    and "key_of act = ''none'' \<or> cfgFor (key_of act) = None
         \<or> (\<exists>c. cfgFor (key_of act) = Some c \<and> (image c = [] \<or> image c \<in> set (loadedRef st)))"
  shows "displayKey (crossfade_step st (ActiveChanged act)) = key_of act"
  using assms by (auto simp: Let_def display_effect_def isLoaded_def set_has_def)

text \<open>
  C2. The second half does not hold of the code. The page mounts with \<open>hero\<close> active;
  the active section changes to \<open>pattern\<close> before its image is loaded, so \<open>hero\<close> stays
  displayed; the preloader then loads the images up to \<open>/pics/pattern.JPG\<close>. The
  component renders again, but the effect's dependencies \<open>[key, isLoaded]\<close> are
  unchanged and the effect does not run: \<open>hero\<close> is still displayed, with \<open>pattern\<close>
  active and its image loaded.
\<close>

theorem display_stale_after_image_loaded:
  "displayKey (foldl crossfade_step (mount ''hero'')
      [ActiveChanged ''pattern'', ImageLoaded ''/pics/Vision_bg.png'',
       ImageLoaded ''/pics/meaning_img.JPG'', ImageLoaded ''/pics/pattern.JPG'']) = ''hero''
   \<and> key (foldl crossfade_step (mount ''hero'')
      [ActiveChanged ''pattern'', ImageLoaded ''/pics/Vision_bg.png'',
       ImageLoaded ''/pics/meaning_img.JPG'', ImageLoaded ''/pics/pattern.JPG'']) = ''pattern''
   \<and> isLoaded (loadedRef (foldl crossfade_step (mount ''hero'')
      [ActiveChanged ''pattern'', ImageLoaded ''/pics/Vision_bg.png'',
       ImageLoaded ''/pics/meaning_img.JPG'', ImageLoaded ''/pics/pattern.JPG'']))
      (Some ''/pics/pattern.JPG'')"
  by code_simp

end
